theory Spec2Isabelle
  imports Main
begin

section \<open>The binary-trees benchmark (python/binary-tree.py)\<close>

text \<open>
  The program builds perfect binary trees bottom-up, reduces each of them to a checksum
  and prints one line per measurement. Python integers are unbounded, so every number of
  the program is an \<open>int\<close>. The interpreter's resource limits (memory, recursion depth)
  are not part of the model: every function below is total.
\<close>

subsection \<open>Data model\<close>

text \<open>
  \<^verbatim>\<open>class Node\<close>: an item and two links, each of them \<^verbatim>\<open>None\<close> or a node.
\<close>

datatype Node = Node (item: int) (left: "Node option") (right: "Node option")

text \<open>
  The exceptions the program can raise: a method looked up on \<^verbatim>\<open>None\<close>, a missing
  command-line argument (\<^verbatim>\<open>sys.argv[1]\<close>), and an argument that \<^verbatim>\<open>int\<close> rejects or a
  negative shift count.
\<close>

datatype error = AttributeError | IndexError | ValueError

subsection \<open>Checksum reducer\<close>

text \<open>
  \<^verbatim>\<open>Node.itemCheck\<close>. Only the left link is tested. The operands are evaluated left to
  right: the left subtree is reduced first, then \<^verbatim>\<open>self.right.itemCheck\<close> is looked up,
  which raises when the right link is \<^verbatim>\<open>None\<close>.
\<close>

fun itemCheck :: "Node \<Rightarrow> error + int" where
  "itemCheck (Node i None r) = Inr i"
| "itemCheck (Node i (Some l) r) =
     (case itemCheck l of
        Inl e \<Rightarrow> Inl e
      | Inr a \<Rightarrow>
          (case r of
             None \<Rightarrow> Inl AttributeError
           | Some r' \<Rightarrow>
               (case itemCheck r' of
                  Inl e \<Rightarrow> Inl e
                | Inr b \<Rightarrow> Inr (i + a - b))))"

subsection \<open>Tree builder\<close>

text \<open>\<^verbatim>\<open>bottomUpTree(item, depth)\<close>; the depth is any integer.\<close>

function bottomUpTree :: "int \<Rightarrow> int \<Rightarrow> Node" where
  "bottomUpTree itm depth =
     (if depth \<le> 0 then Node itm None None
      else Node itm (Some (bottomUpTree (2 * itm - 1) (depth - 1)))
                    (Some (bottomUpTree (2 * itm) (depth - 1))))"
  by pat_completeness auto
termination
  by (relation "measure (\<lambda>(itm, depth). nat depth)") auto

declare bottomUpTree.simps [simp del]

subsection \<open>Observations on trees\<close>

text \<open>All nodes of a tree, the root first; a link that is absent contributes nothing.\<close>

fun nodes :: "Node \<Rightarrow> Node list" where
  "nodes (Node i l r) =
     Node i l r
     # (case l of None \<Rightarrow> [] | Some t \<Rightarrow> nodes t)
     @ (case r of None \<Rightarrow> [] | Some t \<Rightarrow> nodes t)"

text \<open>A leaf has both links absent; an inner node that is safe to reduce has both present.\<close>

definition is_leaf :: "Node \<Rightarrow> bool" where
  "is_leaf t = (left t = None \<and> right t = None)"

definition is_full :: "Node \<Rightarrow> bool" where
  "is_full t = (left t \<noteq> None \<and> right t \<noteq> None)"

subsection \<open>Output\<close>

text \<open>
  One constructor per \<^verbatim>\<open>print\<close> statement of \<^verbatim>\<open>main\<close>, holding the arguments of its
  format string; \<open>render\<close> is the text of the line.
\<close>

datatype Line =
    is_Stretch: Stretch (depth_of: int) (check_of: int)
  | is_Trees: Trees (count_of: int) (depth_of: int) (check_of: int)
  | is_LongLived: LongLived (depth_of: int) (check_of: int)

fun digits :: "nat \<Rightarrow> string" where
  "digits n =
     (if n < 10 then [''0123456789'' ! n]
      else digits (n div 10) @ [''0123456789'' ! (n mod 10)])"

declare digits.simps [simp del]

definition fmt_d :: "int \<Rightarrow> string" where
  "fmt_d i = (if i < 0 then CHR ''-'' # digits (nat (- i)) else digits (nat i))"

fun render :: "Line \<Rightarrow> string" where
  "render (Stretch d c) =
     ''stretch tree of depth '' @ fmt_d d @ [CHR 0x09] @ '' check: '' @ fmt_d c"
| "render (Trees k d c) =
     fmt_d k @ [CHR 0x09] @ '' trees of depth '' @ fmt_d d @ [CHR 0x09] @ '' check: '' @ fmt_d c"
| "render (LongLived d c) =
     ''long lived tree of depth '' @ fmt_d d @ [CHR 0x09] @ '' check: '' @ fmt_d c"

subsection \<open>Driver\<close>

text \<open>\<^verbatim>\<open>1 << k\<close>: Python raises \<^verbatim>\<open>ValueError\<close> on a negative shift count.\<close>

definition shl :: "int \<Rightarrow> int \<Rightarrow> error + int" where
  "shl a k = (if k < 0 then Inl ValueError else Inr (a * 2 ^ nat k))"

text \<open>
  The state of the inner loop: the running \<^verbatim>\<open>check\<close>, and, as a ghost field, the trees
  the loop has built so far, in the order of their construction.
\<close>

record tally =
  check :: int
  built :: "Node list"

text \<open>
  \<^verbatim>\<open>for i in range(1, iterations)\<close>, entered with \<open>i = 1\<close>: the body runs while
  \<open>i < iterations\<close>.
\<close>

function for_loop :: "int \<Rightarrow> int \<Rightarrow> int \<Rightarrow> tally \<Rightarrow> error + tally" where
  "for_loop depth iterations i s =
     (if i < iterations then
        (let t1 = bottomUpTree i depth in
         case itemCheck t1 of
           Inl e \<Rightarrow> Inl e
         | Inr a \<Rightarrow>
             (let t2 = bottomUpTree (- i) depth in
              case itemCheck t2 of
                Inl e \<Rightarrow> Inl e
              | Inr b \<Rightarrow>
                  for_loop depth iterations (i + 1)
                    \<lparr>check = check s + a + b, built = built s @ [t1, t2]\<rparr>))
      else Inr s)"
  by pat_completeness auto
termination
  by (relation "measure (\<lambda>(depth, iterations, i, s). nat (iterations - i))") auto

declare for_loop.simps [simp del]

text \<open>
  \<^verbatim>\<open>while depth <= maxDepth\<close>. The result is the output so far and the exception that
  ended the run, if any.
\<close>

function while_loop :: "int \<Rightarrow> int \<Rightarrow> int \<Rightarrow> Line list \<Rightarrow> Line list \<times> error option" where
  "while_loop minDepth maxDepth depth out =
     (if depth \<le> maxDepth then
        (case shl 1 (maxDepth - depth + minDepth) of
           Inl e \<Rightarrow> (out, Some e)
         | Inr iterations \<Rightarrow>
             (case for_loop depth iterations 1 \<lparr>check = 0, built = []\<rparr> of
                Inl e \<Rightarrow> (out, Some e)
              | Inr s \<Rightarrow>
                  while_loop minDepth maxDepth (depth + 2)
                    (out @ [Trees (iterations * 2) depth (check s)])))
      else (out, None))"
  by pat_completeness auto
termination
  by (relation "measure (\<lambda>(minDepth, maxDepth, depth, out). nat (maxDepth - depth + 1))") auto

declare while_loop.simps [simp del]

text \<open>\<^verbatim>\<open>main(n, minDepth=4)\<close>.\<close>

definition main :: "int \<Rightarrow> int \<Rightarrow> Line list \<times> error option" where
  "main n minDepth =
     (let maxDepth = (if minDepth + 2 > n then minDepth + 2 else n);
          stretchDepth = maxDepth + 1
      in case itemCheck (bottomUpTree 0 stretchDepth) of
           Inl e \<Rightarrow> ([], Some e)
         | Inr c \<Rightarrow>
             (let longLivedTree = bottomUpTree 0 maxDepth
              in case while_loop minDepth maxDepth minDepth [Stretch stretchDepth c] of
                   (out, Some e) \<Rightarrow> (out, Some e)
                 | (out, None) \<Rightarrow>
                     (case itemCheck longLivedTree of
                        Inl e \<Rightarrow> (out, Some e)
                      | Inr c' \<Rightarrow> (out @ [LongLived maxDepth c'], None))))"

text \<open>
  The entry point, \<^verbatim>\<open>main(int(sys.argv[1]))\<close>. The built-in \<^verbatim>\<open>int\<close> is a parameter:
  \<open>int_py s\<close> is the integer that \<^verbatim>\<open>int\<close> reads from \<open>s\<close>, or \<open>None\<close> where it raises
  \<^verbatim>\<open>ValueError\<close>. An uncaught exception ends the process with status 1.
\<close>

definition program :: "(string \<Rightarrow> int option) \<Rightarrow> string list \<Rightarrow> Line list \<times> error option" where
  "program int_py argv =
     (if length argv \<le> 1 then ([], Some IndexError)
      else case int_py (argv ! 1) of
             None \<Rightarrow> ([], Some ValueError)
           | Some n \<Rightarrow> main n 4)"

definition exit_code :: "Line list \<times> error option \<Rightarrow> nat" where
  "exit_code r = (case snd r of None \<Rightarrow> 0 | Some e \<Rightarrow> 1)"

section \<open>Auxiliary facts\<close>

subsection \<open>Builder and reducer\<close>

lemma itemCheck_leaf: "depth \<le> 0 \<Longrightarrow> itemCheck (bottomUpTree itm depth) = Inr itm"
  by (simp add: bottomUpTree.simps)

lemma bottomUpTree_inner:
  "0 < depth \<Longrightarrow>
     bottomUpTree itm depth =
       Node itm (Some (bottomUpTree (2 * itm - 1) (depth - 1)))
                (Some (bottomUpTree (2 * itm) (depth - 1)))"
  by (simp add: bottomUpTree.simps [of itm depth])

lemma itemCheck_inner: "1 \<le> depth \<Longrightarrow> itemCheck (bottomUpTree itm depth) = Inr (itm - 1)"
proof (induction itm depth rule: bottomUpTree.induct)
  case (1 itm depth)
  show ?case
  proof (cases "depth = 1")
    case True
    then show ?thesis
      by (simp add: bottomUpTree_inner itemCheck_leaf)
  next
    case False
    with "1.prems" have deeper: "1 \<le> depth - 1" and pos: "\<not> depth \<le> 0" by simp_all
    have l: "itemCheck (bottomUpTree (2 * itm - 1) (depth - 1)) = Inr (2 * itm - 1 - 1)"
      using "1.IH"(1) [OF pos deeper] .
    have r: "itemCheck (bottomUpTree (2 * itm) (depth - 1)) = Inr (2 * itm - 1)"
      using "1.IH"(2) [OF pos deeper] .
    from pos show ?thesis
      by (simp add: bottomUpTree_inner l r)
  qed
qed

lemma Suc_length_nodes:
  "Suc (length (nodes (bottomUpTree itm (int k)))) = 2 ^ Suc k"
proof (induction k arbitrary: itm)
  case 0
  show ?case by (simp add: bottomUpTree.simps [of itm 0])
next
  case (Suc k)
  have step: "int (Suc k) - 1 = int k" by simp
  have pos: "0 < int (Suc k)" by simp
  have "Suc (length (nodes (bottomUpTree itm (int (Suc k))))) =
        Suc (length (nodes (bottomUpTree (2 * itm - 1) (int k))))
        + Suc (length (nodes (bottomUpTree (2 * itm) (int k))))"
    unfolding bottomUpTree_inner [OF pos] step by simp
  also have "\<dots> = 2 ^ Suc k + 2 ^ Suc k"
    by (simp only: Suc.IH)
  finally show ?case by simp
qed

lemma all_nodes_shape:
  "\<forall>t \<in> set (nodes (bottomUpTree itm depth)). is_leaf t \<or> is_full t"
proof (induction itm depth rule: bottomUpTree.induct)
  case (1 itm depth)
  show ?case
  proof (cases "depth \<le> 0")
    case True
    then show ?thesis by (simp add: bottomUpTree.simps [of itm depth] is_leaf_def)
  next
    case False
    then have pos: "0 < depth" by simp
    show ?thesis
      unfolding bottomUpTree_inner [OF pos]
      using "1.IH"(1) [OF False] "1.IH"(2) [OF False]
      by (auto simp: is_full_def)
  qed
qed

lemma itemCheck_half_node: "itemCheck (Node 1 (Some (Node 2 None None)) None) = Inl AttributeError"
  by simp

lemma nodes_inner:
  assumes "0 < depth"
  shows "nodes (bottomUpTree itm depth) =
           bottomUpTree itm depth
           # nodes (bottomUpTree (2 * itm - 1) (depth - 1))
           @ nodes (bottomUpTree (2 * itm) (depth - 1))"
proof -
  let ?l = "bottomUpTree (2 * itm - 1) (depth - 1)"
  let ?r = "bottomUpTree (2 * itm) (depth - 1)"
  have eq: "bottomUpTree itm depth = Node itm (Some ?l) (Some ?r)"
    using assms by (rule bottomUpTree_inner)
  have "nodes (bottomUpTree itm depth) = nodes (Node itm (Some ?l) (Some ?r))"
    by (rule arg_cong [OF eq])
  also have "\<dots> = Node itm (Some ?l) (Some ?r) # nodes ?l @ nodes ?r"
    by simp
  finally show ?thesis
    by (simp only: eq [symmetric])
qed

lemma nodes_built:
  "t \<in> set (nodes (bottomUpTree itm depth)) \<Longrightarrow> \<exists>i d. t = bottomUpTree i d"
proof (induction itm depth rule: bottomUpTree.induct)
  case (1 itm depth)
  show ?case
  proof (cases "depth \<le> 0")
    case True
    with "1.prems" have "t = bottomUpTree itm depth"
      by (simp add: bottomUpTree.simps [of itm depth])
    then show ?thesis by blast
  next
    case False
    then have pos: "0 < depth" by simp
    from "1.prems" have
      "t = bottomUpTree itm depth
       \<or> t \<in> set (nodes (bottomUpTree (2 * itm - 1) (depth - 1)))
       \<or> t \<in> set (nodes (bottomUpTree (2 * itm) (depth - 1)))"
      unfolding nodes_inner [OF pos] by auto
    then show ?thesis
      using "1.IH"(1) [OF False] "1.IH"(2) [OF False] by blast
  qed
qed

lemma itemCheck_total: "\<exists>c. itemCheck (bottomUpTree itm depth) = Inr c"
proof (cases "depth \<le> 0")
  case True
  then show ?thesis by (simp add: itemCheck_leaf)
next
  case False
  then show ?thesis by (simp add: itemCheck_inner)
qed

lemma shape_safe:
  "\<forall>t \<in> set (nodes T). is_leaf t \<or> is_full t \<Longrightarrow> \<exists>c. itemCheck T = Inr c"
proof (induction T rule: itemCheck.induct)
  case (1 i r)
  show ?case by simp
next
  case (2 i l r)
  from "2.prems" have "is_leaf (Node i (Some l) r) \<or> is_full (Node i (Some l) r)"
    by simp
  then obtain r' where r: "r = Some r'"
    by (auto simp: is_leaf_def is_full_def)
  from "2.prems" have sub:
    "\<forall>t \<in> set (nodes l). is_leaf t \<or> is_full t"
    "\<forall>t \<in> set (nodes r'). is_leaf t \<or> is_full t"
    by (simp_all add: r)
  obtain a where a: "itemCheck l = Inr a"
    using "2.IH"(1) [OF sub(1)] by blast
  obtain b where b: "itemCheck r' = Inr b"
    using "2.IH"(2) [OF a r sub(2)] by blast
  show ?case by (simp add: a b r)
qed

lemma itemCheck_node:
  "itemCheck l = Inr a \<Longrightarrow> itemCheck r = Inr b \<Longrightarrow>
     itemCheck (Node i (Some l) (Some r)) = Inr (i + a - b)"
  by simp

subsection \<open>Loops and driver\<close>

lemma for_loop_closed:
  "1 \<le> depth \<Longrightarrow>
     for_loop depth iterations i s =
       Inr \<lparr>check = check s - 2 * max 0 (iterations - i),
            built = built s @ concat (map (\<lambda>j. [bottomUpTree j depth, bottomUpTree (- j) depth])
                                          [i..iterations - 1])\<rparr>"
proof (induction depth iterations i s rule: for_loop.induct)
  case (1 depth iterations i s)
  show ?case
  proof (cases "i < iterations")
    case True
    have a: "itemCheck (bottomUpTree i depth) = Inr (i - 1)"
      using "1.prems" by (rule itemCheck_inner)
    have b: "itemCheck (bottomUpTree (- i) depth) = Inr (- i - 1)"
      using "1.prems" by (rule itemCheck_inner)
    have rng: "[i..iterations - 1] = i # [i + 1..iterations - 1]"
      using True by (simp add: upto_rec1)
    have "for_loop depth iterations i s =
          for_loop depth iterations (i + 1)
            \<lparr>check = check s + (i - 1) + (- i - 1),
             built = built s @ [bottomUpTree i depth, bottomUpTree (- i) depth]\<rparr>"
      using True by (subst for_loop.simps) (simp add: a b Let_def)
    also have "\<dots> =
          Inr \<lparr>check = check s + (i - 1) + (- i - 1) - 2 * max 0 (iterations - (i + 1)),
               built = (built s @ [bottomUpTree i depth, bottomUpTree (- i) depth])
                 @ concat (map (\<lambda>j. [bottomUpTree j depth, bottomUpTree (- j) depth])
                            [i + 1..iterations - 1])\<rparr>"
      using "1.IH" [OF True refl a refl b "1.prems"] by simp
    finally show ?thesis
      using True by (simp add: rng)
  next
    case False
    then show ?thesis
      by (subst for_loop.simps) simp
  qed
qed

lemma for_loop_built:
  "1 \<le> depth \<Longrightarrow>
     \<exists>s. for_loop depth iterations 1 \<lparr>check = 0, built = []\<rparr> = Inr s
         \<and> length (built s) = 2 * nat (iterations - 1)
         \<and> map item (built s) = concat (map (\<lambda>j. [j, - j]) [1..iterations - 1])
         \<and> check s = - 2 * max 0 (iterations - 1)"
proof -
  assume d: "1 \<le> depth"
  have item: "item (bottomUpTree i depth) = i" for i
    by (simp add: bottomUpTree.simps [of i depth])
  have len: "length (concat (map (\<lambda>j. [f j, g j]) xs)) = 2 * length xs" for f g :: "int \<Rightarrow> Node" and xs
    by (induction xs) simp_all
  have its: "map item (concat (map (\<lambda>j. [bottomUpTree j depth, bottomUpTree (- j) depth]) xs))
             = concat (map (\<lambda>j. [j, - j]) xs)" for xs
    by (induction xs) (simp_all add: item)
  show ?thesis
    by (simp add: for_loop_closed [OF d] len its)
qed

lemma for_loop_check:
  "1 \<le> depth \<Longrightarrow>
     \<exists>s'. for_loop depth iterations 1 \<lparr>check = 0, built = []\<rparr> = Inr s'
          \<and> check s' = - 2 * max 0 (iterations - 1)"
  by (simp add: for_loop_closed)

lemma while_loop_lines:
  "0 \<le> minDepth \<Longrightarrow> 1 \<le> depth \<Longrightarrow>
     \<exists>ls. while_loop minDepth maxDepth depth out = (out @ ls, None)
          \<and> (\<forall>l \<in> set ls. is_Trees l)"
proof (induction minDepth maxDepth depth out rule: while_loop.induct)
  case (1 minDepth maxDepth depth out)
  show ?case
  proof (cases "depth \<le> maxDepth")
    case True
    define iterations :: int where "iterations = 1 * 2 ^ nat (maxDepth - depth + minDepth)"
    have sh: "shl 1 (maxDepth - depth + minDepth) = Inr iterations"
      using True "1.prems" by (simp add: shl_def iterations_def)
    obtain s where fl: "for_loop depth iterations 1 \<lparr>check = 0, built = []\<rparr> = Inr s"
      using for_loop_check [OF "1.prems"(2)] by blast
    have deeper: "1 \<le> depth + 2" using "1.prems" by simp
    obtain ls where ih:
      "while_loop minDepth maxDepth (depth + 2) (out @ [Trees (iterations * 2) depth (check s)])
         = ((out @ [Trees (iterations * 2) depth (check s)]) @ ls, None)"
      "\<forall>l \<in> set ls. is_Trees l"
      using "1.IH" [OF True sh fl "1.prems"(1) deeper] by blast
    have "while_loop minDepth maxDepth depth out
            = (out @ (Trees (iterations * 2) depth (check s) # ls), None)"
      using True by (subst while_loop.simps) (simp add: sh fl ih(1))
    moreover have "\<forall>l \<in> set (Trees (iterations * 2) depth (check s) # ls). is_Trees l"
      using ih(2) by simp
    ultimately show ?thesis by blast
  next
    case False
    then show ?thesis by (subst while_loop.simps) simp
  qed
qed

lemma main_shape:
  "\<exists>ls. main n 4 = (Stretch (max n 6 + 1) (- 1) # ls @ [LongLived (max n 6) (- 1)], None)
        \<and> (\<forall>l \<in> set ls. is_Trees l)"
proof -
  define maxDepth where "maxDepth = max n 6"
  have md: "(if 4 + 2 > n then 4 + 2 else n) = maxDepth"
    by (simp add: maxDepth_def max_def)
  have big: "1 \<le> maxDepth" "1 \<le> maxDepth + 1" by (simp_all add: maxDepth_def)
  have st: "itemCheck (bottomUpTree 0 (maxDepth + 1)) = Inr (- 1)"
    using itemCheck_inner [OF big(2), of 0] by simp
  have ll: "itemCheck (bottomUpTree 0 maxDepth) = Inr (- 1)"
    using itemCheck_inner [OF big(1), of 0] by simp
  obtain ls where wl:
    "while_loop 4 maxDepth 4 [Stretch (maxDepth + 1) (- 1)]
       = ([Stretch (maxDepth + 1) (- 1)] @ ls, None)"
    "\<forall>l \<in> set ls. is_Trees l"
    using while_loop_lines [of 4 4 maxDepth "[Stretch (maxDepth + 1) (- 1)]"] by auto
  have "main n 4 = (Stretch (maxDepth + 1) (- 1) # ls @ [LongLived maxDepth (- 1)], None)"
    unfolding main_def md by (simp add: Let_def st ll wl(1))
  with wl(2) show ?thesis unfolding maxDepth_def by blast
qed

lemma while_loop_4_6:
  "while_loop 4 6 4 out = (out @ [Trees 128 4 (- 126), Trees 32 6 (- 30)], None)"
proof -
  obtain s4 where s4: "for_loop 4 64 1 \<lparr>check = 0, built = []\<rparr> = Inr s4" "check s4 = - 126"
    using for_loop_check [of 4 64] by auto
  obtain s6 where s6: "for_loop 6 16 1 \<lparr>check = 0, built = []\<rparr> = Inr s6" "check s6 = - 30"
    using for_loop_check [of 6 16] by auto
  have w8: "while_loop 4 6 8 out' = (out', None)" for out'
    by (subst while_loop.simps) simp
  have w6: "while_loop 4 6 6 out' = (out' @ [Trees 32 6 (- 30)], None)" for out'
    by (subst while_loop.simps) (simp add: shl_def s6 w8)
  show ?thesis
    by (subst while_loop.simps) (simp add: shl_def s4 w6)
qed

lemma main_4: "main 4 4 = ([Stretch 7 (- 1), Trees 128 4 (- 126), Trees 32 6 (- 30), LongLived 6 (- 1)], None)"
  unfolding main_def by (simp add: Let_def itemCheck_inner while_loop_4_6)

lemma depths_unfold:
  assumes "depth \<le> maxDepth"
  shows "map (\<lambda>k. depth + 2 * int k) [0..<nat ((maxDepth - depth) div 2 + 1)] =
           depth # map (\<lambda>k. depth + 2 + 2 * int k) [0..<nat ((maxDepth - (depth + 2)) div 2 + 1)]"
proof -
  have nonneg: "0 \<le> (maxDepth - depth) div 2" using assms by simp
  have shift: "(maxDepth - (depth + 2)) div 2 + 1 = (maxDepth - depth) div 2"
    by simp
  have "nat ((maxDepth - depth) div 2 + 1) = Suc (nat ((maxDepth - depth) div 2))"
    using nonneg by simp
  then have "[0..<nat ((maxDepth - depth) div 2 + 1)] = 0 # map Suc [0..<nat ((maxDepth - depth) div 2)]"
    by (simp add: upt_conv_Cons map_Suc_upt del: upt_Suc)
  then show ?thesis
    unfolding shift by (simp add: comp_def algebra_simps)
qed

lemma while_loop_closed:
  "0 \<le> minDepth \<Longrightarrow> 1 \<le> depth \<Longrightarrow>
     while_loop minDepth maxDepth depth out =
       (out @ map (\<lambda>d. Trees (2 * 2 ^ nat (maxDepth - d + minDepth)) d
                           (- 2 * (2 ^ nat (maxDepth - d + minDepth) - 1)))
                  (map (\<lambda>k. depth + 2 * int k) [0..<nat ((maxDepth - depth) div 2 + 1)]),
        None)"
proof (induction minDepth maxDepth depth out rule: while_loop.induct)
  case (1 minDepth maxDepth depth out)
  let ?line = "\<lambda>d. Trees (2 * 2 ^ nat (maxDepth - d + minDepth)) d
                           (- 2 * (2 ^ nat (maxDepth - d + minDepth) - 1))"
  show ?case
  proof (cases "depth \<le> maxDepth")
    case True
    define iterations :: int where "iterations = 1 * 2 ^ nat (maxDepth - depth + minDepth)"
    have sh: "shl 1 (maxDepth - depth + minDepth) = Inr iterations"
      using True "1.prems" by (simp add: shl_def iterations_def)
    have big: "1 \<le> iterations" by (simp add: iterations_def)
    obtain s where fl: "for_loop depth iterations 1 \<lparr>check = 0, built = []\<rparr> = Inr s"
      and cs: "check s = - 2 * max 0 (iterations - 1)"
      using for_loop_check [OF "1.prems"(2)] by blast
    have line: "Trees (iterations * 2) depth (check s) = ?line depth"
      using big by (simp add: cs iterations_def)
    have deeper: "1 \<le> depth + 2" using "1.prems" by simp
    have "while_loop minDepth maxDepth depth out
            = while_loop minDepth maxDepth (depth + 2)
                (out @ [Trees (iterations * 2) depth (check s)])"
      using True by (subst while_loop.simps) (simp add: sh fl)
    also have "\<dots> = while_loop minDepth maxDepth (depth + 2) (out @ [?line depth])"
      by (simp only: line)
    also have "\<dots> = ((out @ [?line depth])
                      @ map ?line (map (\<lambda>k. depth + 2 + 2 * int k)
                                       [0..<nat ((maxDepth - (depth + 2)) div 2 + 1)]), None)"
      using "1.IH" [OF True sh fl "1.prems"(1) deeper] by (simp only: line)
    finally show ?thesis
      unfolding depths_unfold [OF True] by simp
  next
    case False
    then show ?thesis by (subst while_loop.simps) simp
  qed
qed

lemma main_closed:
  "main n 4 =
     (Stretch (max n 6 + 1) (- 1)
      # map (\<lambda>d. Trees (2 * 2 ^ nat (max n 6 - d + 4)) d (- 2 * (2 ^ nat (max n 6 - d + 4) - 1)))
            (map (\<lambda>k. 4 + 2 * int k) [0..<nat ((max n 6 - 4) div 2 + 1)])
      @ [LongLived (max n 6) (- 1)], None)"
proof -
  define maxDepth where "maxDepth = max n 6"
  have md: "(if 4 + 2 > n then 4 + 2 else n) = maxDepth"
    by (simp add: maxDepth_def max_def)
  have big: "1 \<le> maxDepth" "1 \<le> maxDepth + 1" by (simp_all add: maxDepth_def)
  have st: "itemCheck (bottomUpTree 0 (maxDepth + 1)) = Inr (- 1)"
    using itemCheck_inner [OF big(2), of 0] by simp
  have ll: "itemCheck (bottomUpTree 0 maxDepth) = Inr (- 1)"
    using itemCheck_inner [OF big(1), of 0] by simp
  show ?thesis
    unfolding main_def md maxDepth_def [symmetric]
    by (simp add: Let_def st ll while_loop_closed)
qed

lemma loop_line_link:
  assumes "l \<in> set (fst (main n 4))" "is_Trees l"
  shows "\<exists>its s. shl 1 (max n 6 - depth_of l + 4) = Inr its
           \<and> for_loop (depth_of l) its 1 \<lparr>check = 0, built = []\<rparr> = Inr s
           \<and> l = Trees (its * 2) (depth_of l) (check s)
           \<and> check s = - int (length (built s))"
proof -
  define M where "M = max n 6"
  have out: "fst (main n 4) =
       Stretch (M + 1) (- 1)
        # map (\<lambda>d. Trees (2 * 2 ^ nat (M - d + 4)) d (- 2 * (2 ^ nat (M - d + 4) - 1)))
              (map (\<lambda>k. 4 + 2 * int k) [0..<nat ((M - 4) div 2 + 1)])
        @ [LongLived M (- 1)]"
    unfolding M_def main_closed by (rule fst_conv)
  from assms obtain k where k: "k < nat ((M - 4) div 2 + 1)"
    and l: "l = Trees (2 * 2 ^ nat (M - (4 + 2 * int k) + 4)) (4 + 2 * int k)
                  (- 2 * (2 ^ nat (M - (4 + 2 * int k) + 4) - 1))"
    unfolding out by auto
  define d where "d = 4 + 2 * int k"
  define its :: int where "its = 2 ^ nat (M - d + 4)"
  have le: "d \<le> M" unfolding d_def using k by linarith
  have d1: "1 \<le> d" unfolding d_def by simp
  have big: "1 \<le> its" by (simp add: its_def)
  have nn: "\<not> M - d + 4 < 0" using le by simp
  have sh: "shl 1 (M - d + 4) = Inr its"
    unfolding shl_def its_def using nn by simp
  obtain s where s: "for_loop d its 1 \<lparr>check = 0, built = []\<rparr> = Inr s"
    "length (built s) = 2 * nat (its - 1)" "check s = - 2 * max 0 (its - 1)"
    using for_loop_built [OF d1, of its] by blast
  have cs: "check s = - 2 * (its - 1)" using s(3) big by simp
  have l': "l = Trees (its * 2) d (check s)"
    unfolding l cs its_def d_def by simp
  have len: "check s = - int (length (built s))"
    using big by (simp add: cs s(2))
  have dl: "depth_of l = d" by (simp add: l')
  show ?thesis
    unfolding dl M_def [symmetric] using sh s(1) l' len by blast
qed

lemma render_main_4:
  "map render (fst (main 4 4)) =
     [''stretch tree of depth 7'' @ [CHR 0x09] @ '' check: -1'',
      ''128'' @ [CHR 0x09] @ '' trees of depth 4'' @ [CHR 0x09] @ '' check: -126'',
      ''32'' @ [CHR 0x09] @ '' trees of depth 6'' @ [CHR 0x09] @ '' check: -30'',
      ''long lived tree of depth 6'' @ [CHR 0x09] @ '' check: -1'']"
  by (simp add: main_4 fmt_d_def digits.simps)

section \<open>The claims\<close>

subsection \<open>Tree builder\<close>

text \<open>
  Claim C6. For every item and depth, \<open>bottomUpTree\<close> returns a leaf holding the item
  when the depth is at most 0; otherwise it returns a node holding the item, whose left
  subtree is built from \<open>2 * item - 1\<close> and whose right subtree is built from
  \<open>2 * item\<close>, both one level shallower. The result is a function of the two
  arguments alone.
\<close>

theorem bottomUpTree_spec:
  "(depth \<le> 0 \<longrightarrow> bottomUpTree itm depth = Node itm None None)
   \<and> (0 < depth \<longrightarrow>
        bottomUpTree itm depth =
          Node itm (Some (bottomUpTree (2 * itm - 1) (depth - 1)))
                   (Some (bottomUpTree (2 * itm) (depth - 1))))
   \<and> item (bottomUpTree itm depth) = itm"
  by (simp add: bottomUpTree.simps [of itm depth])

text \<open>
  An instance of C6 at each of its two cases: depth 0, and depth 1 with both children
  unfolded.
\<close>

theorem bottomUpTree_spec_witness:
  "(0::int) \<le> 0 \<and> bottomUpTree 3 0 = Node 3 None None
   \<and> (0::int) < 1
   \<and> bottomUpTree 3 1 = Node 3 (Some (Node 5 None None)) (Some (Node 6 None None))"
  using bottomUpTree_spec [of 0 3] bottomUpTree_spec [of 1 3]
        bottomUpTree_spec [of 0 5] bottomUpTree_spec [of 0 6]
  by simp

text \<open>
  Claim C4. For every item and every depth \<open>d \<ge> 0\<close>, the tree built at depth \<open>d\<close>
  has exactly \<open>2 ^ (d + 1) - 1\<close> nodes.
\<close>

theorem node_count:
  "0 \<le> depth \<Longrightarrow> length (nodes (bottomUpTree itm depth)) = 2 ^ (nat depth + 1) - 1"
proof -
  assume "0 \<le> depth"
  then have "Suc (length (nodes (bottomUpTree itm depth))) = 2 ^ Suc (nat depth)"
    using Suc_length_nodes [of itm "nat depth"] by simp
  then show ?thesis by simp
qed

text \<open>
  An instance of C4: a tree of depth 3 has 15 nodes.
\<close>

theorem node_count_witness:
  "(0::int) \<le> 3 \<and> length (nodes (bottomUpTree 5 3)) = 15"
  using node_count [of 3 5] by simp

text \<open>
  Claim C9. Every node of a built tree has both links absent or both links present, and
  the reducer returns a value, not an exception, at every such node. The second conjunct
  is the reason: on any tree whose nodes all have that shape the reducer returns a value,
  although it tests the left link only.
\<close>

theorem built_tree_safe:
  "(\<forall>t \<in> set (nodes (bottomUpTree itm depth)).
      (is_leaf t \<or> is_full t) \<and> (\<exists>c. itemCheck t = Inr c))
   \<and> ((\<forall>t \<in> set (nodes T). is_leaf t \<or> is_full t) \<longrightarrow> (\<exists>c. itemCheck T = Inr c))"
proof -
  have "\<exists>c. itemCheck t = Inr c" if "t \<in> set (nodes (bottomUpTree itm depth))" for t
    using nodes_built [OF that] itemCheck_total by blast
  then show ?thesis
    using all_nodes_shape [of itm depth] shape_safe [of T] by blast
qed

text \<open>
  An instance of C9: the built tree of depth 1 has nodes, and a hand-written tree of
  the required shape is reduced without an exception.
\<close>

theorem built_tree_safe_witness:
  "nodes (bottomUpTree 3 1) \<noteq> []
   \<and> list_all (\<lambda>t. (is_leaf t \<or> is_full t) \<and> (\<exists>c. itemCheck t = Inr c))
         (nodes (bottomUpTree 3 1))
   \<and> list_all (\<lambda>t. is_leaf t \<or> is_full t)
         (nodes (Node 1 (Some (Node 2 None None)) (Some (Node 3 None None))))
   \<and> (\<exists>c. itemCheck (Node 1 (Some (Node 2 None None)) (Some (Node 3 None None))) = Inr c)"
proof -
  let ?T = "Node 1 (Some (Node 2 None None)) (Some (Node 3 None None))"
  have ne: "nodes (bottomUpTree 3 1) \<noteq> []"
    by (simp add: bottomUpTree.simps [of _ 1])
  have sh: "\<forall>t \<in> set (nodes ?T). is_leaf t \<or> is_full t"
    by (simp add: is_leaf_def is_full_def)
  note safe = built_tree_safe [of 3 1 ?T]
  have built: "list_all (\<lambda>t. (is_leaf t \<or> is_full t) \<and> (\<exists>c. itemCheck t = Inr c))
                 (nodes (bottomUpTree 3 1))"
    unfolding list_all_iff using safe by (rule conjunct1)
  have any: "\<exists>c. itemCheck ?T = Inr c"
    using safe [THEN conjunct2] sh by (rule mp)
  have "list_all (\<lambda>t. is_leaf t \<or> is_full t) (nodes ?T)"
    unfolding list_all_iff by (rule sh)
  with ne built any show ?thesis by (intro conjI)
qed

subsection \<open>Checksum reducer\<close>

text \<open>
  Claim C7. At every node of a built tree the reducer returns the node's item when the
  node is a leaf, and otherwise the item plus the checksum of the left child minus the
  checksum of the right child.
\<close>

theorem itemCheck_spec:
  assumes "t \<in> set (nodes (bottomUpTree itm depth))"
  shows "(is_leaf t \<longrightarrow> itemCheck t = Inr (item t))
         \<and> (\<not> is_leaf t \<longrightarrow>
              (\<exists>l r a b. left t = Some l \<and> right t = Some r
                 \<and> itemCheck l = Inr a \<and> itemCheck r = Inr b
                 \<and> itemCheck t = Inr (item t + a - b)))"
proof -
  obtain i d where t: "t = bottomUpTree i d"
    using nodes_built [OF assms] by blast
  show ?thesis
  proof (cases "d \<le> 0")
    case True
    then have "t = Node i None None"
      by (simp add: t bottomUpTree.simps [of i d])
    then show ?thesis by (simp add: is_leaf_def)
  next
    case False
    then have pos: "0 < d" by simp
    let ?l = "bottomUpTree (2 * i - 1) (d - 1)"
    let ?r = "bottomUpTree (2 * i) (d - 1)"
    have shape: "t = Node i (Some ?l) (Some ?r)"
      unfolding t using pos by (rule bottomUpTree_inner)
    obtain a where a: "itemCheck ?l = Inr a" using itemCheck_total by blast
    obtain b where b: "itemCheck ?r = Inr b" using itemCheck_total by blast
    have "itemCheck t = Inr (i + a - b)"
      unfolding shape using a b by (rule itemCheck_node)
    with a b show ?thesis
      by (simp add: shape is_leaf_def)
  qed
qed

text \<open>
  An instance of C7 at a leaf and at the root of the built tree of depth 1.
\<close>

theorem itemCheck_spec_witness:
  "Node 5 None None \<in> set (nodes (bottomUpTree 3 1))
   \<and> is_leaf (Node 5 None None)
   \<and> itemCheck (Node 5 None None) = Inr 5
   \<and> bottomUpTree 3 1 \<in> set (nodes (bottomUpTree 3 1))
   \<and> \<not> is_leaf (bottomUpTree 3 1)
   \<and> (\<exists>l r a b. left (bottomUpTree 3 1) = Some l \<and> right (bottomUpTree 3 1) = Some r
         \<and> itemCheck l = Inr a \<and> itemCheck r = Inr b
         \<and> itemCheck (bottomUpTree 3 1) = Inr (3 + a - b))"
proof -
  have tree: "bottomUpTree 3 1 = Node 3 (Some (Node 5 None None)) (Some (Node 6 None None))"
    by (simp add: bottomUpTree.simps [of _ 1] bottomUpTree.simps [of _ 0])
  have m1: "Node 5 None None \<in> set (nodes (bottomUpTree 3 1))"
    by (simp add: tree)
  have m2: "bottomUpTree 3 1 \<in> set (nodes (bottomUpTree 3 1))"
    by (simp add: tree)
  have l1: "is_leaf (Node 5 None None)" by (simp add: is_leaf_def)
  have l2: "\<not> is_leaf (bottomUpTree 3 1)" by (simp add: tree is_leaf_def)
  from itemCheck_spec [OF m1] itemCheck_spec [OF m2] m1 m2 l1 l2
  show ?thesis by (simp add: tree)
qed

text \<open>
  Claim C5. For every item and every depth \<open>d \<ge> 1\<close> the checksum of the built tree is
  \<open>item - 1\<close>, whatever the depth. Hence the stretch line and the long-lived line of
  the driver (seed 0) both report \<open>- 1\<close>, and each pair of seeds \<open>i\<close>, \<open>- i\<close> of the inner
  loop contributes exactly \<open>- 2\<close> to the reported sum:
  \<^item> one pass of the loop's body builds the two trees and adds \<open>- 2\<close> to the running sum;
  \<^item> the loop entered at \<open>i\<close> returns the sum it was entered with minus 2 for each pair
    it builds;
  \<^item> the driver's output is the stretch line, one loop line for each depth
    \<open>4, 6, \<dots>\<close> up to \<open>maxDepth\<close>, and the long-lived line, and the sum a loop line
    reports is the one the inner loop returns at that depth: minus 2 for each pair the
    loop has built, that is minus the number of trees built.
\<close>

theorem checksum_closed_form:
  "(1 \<le> depth \<longrightarrow> itemCheck (bottomUpTree itm depth) = Inr (itm - 1))
   \<and> hd (fst (main n 4)) = Stretch (max n 6 + 1) (- 1)
   \<and> last (fst (main n 4)) = LongLived (max n 6) (- 1)
   \<and> (1 \<le> depth \<and> i < iterations \<longrightarrow>
        (\<exists>a b. itemCheck (bottomUpTree i depth) = Inr a
           \<and> itemCheck (bottomUpTree (- i) depth) = Inr b
           \<and> a + b = - 2
           \<and> for_loop depth iterations i s =
               for_loop depth iterations (i + 1)
                 \<lparr>check = check s - 2,
                  built = built s @ [bottomUpTree i depth, bottomUpTree (- i) depth]\<rparr>))
   \<and> (1 \<le> depth \<longrightarrow>
        for_loop depth iterations i s =
          Inr \<lparr>check = check s - 2 * max 0 (iterations - i),
               built = built s @ concat (map (\<lambda>j. [bottomUpTree j depth, bottomUpTree (- j) depth])
                                             [i..iterations - 1])\<rparr>)
   \<and> main n 4 =
       (Stretch (max n 6 + 1) (- 1)
        # map (\<lambda>d. Trees (2 * 2 ^ nat (max n 6 - d + 4)) d
                         (- 2 * (2 ^ nat (max n 6 - d + 4) - 1)))
              (map (\<lambda>k. 4 + 2 * int k) [0..<nat ((max n 6 - 4) div 2 + 1)])
        @ [LongLived (max n 6) (- 1)], None)
   \<and> (\<forall>l \<in> set (fst (main n 4)). is_Trees l \<longrightarrow>
        (\<exists>its t. shl 1 (max n 6 - depth_of l + 4) = Inr its
           \<and> for_loop (depth_of l) its 1 \<lparr>check = 0, built = []\<rparr> = Inr t
           \<and> l = Trees (its * 2) (depth_of l) (check t)
           \<and> check t = - int (length (built t))))"
proof -
  have first: "hd (fst (main n 4)) = Stretch (max n 6 + 1) (- 1)"
    by (simp add: main_closed)
  have final: "last (fst (main n 4)) = LongLived (max n 6) (- 1)"
    by (simp add: main_closed)
  have step: "for_loop depth iterations i s =
               for_loop depth iterations (i + 1)
                 \<lparr>check = check s - 2,
                  built = built s @ [bottomUpTree i depth, bottomUpTree (- i) depth]\<rparr>"
    if "1 \<le> depth" "i < iterations"
    using that by (subst for_loop.simps) (simp add: itemCheck_inner Let_def)
  have pair: "1 \<le> depth \<and> i < iterations \<longrightarrow>
        (\<exists>a b. itemCheck (bottomUpTree i depth) = Inr a
           \<and> itemCheck (bottomUpTree (- i) depth) = Inr b
           \<and> a + b = - 2
           \<and> for_loop depth iterations i s =
               for_loop depth iterations (i + 1)
                 \<lparr>check = check s - 2,
                  built = built s @ [bottomUpTree i depth, bottomUpTree (- i) depth]\<rparr>)"
    using step by (simp add: itemCheck_inner)
  have whole: "1 \<le> depth \<longrightarrow>
        for_loop depth iterations i s =
          Inr \<lparr>check = check s - 2 * max 0 (iterations - i),
               built = built s @ concat (map (\<lambda>j. [bottomUpTree j depth, bottomUpTree (- j) depth])
                                             [i..iterations - 1])\<rparr>"
    using for_loop_closed by blast
  have link: "\<forall>l \<in> set (fst (main n 4)). is_Trees l \<longrightarrow>
        (\<exists>its t. shl 1 (max n 6 - depth_of l + 4) = Inr its
           \<and> for_loop (depth_of l) its 1 \<lparr>check = 0, built = []\<rparr> = Inr t
           \<and> l = Trees (its * 2) (depth_of l) (check t)
           \<and> check t = - int (length (built t)))"
    using loop_line_link by blast
  have one: "1 \<le> depth \<longrightarrow> itemCheck (bottomUpTree itm depth) = Inr (itm - 1)"
    by (simp add: itemCheck_inner)
  from one first final pair whole main_closed [of n] link
  show ?thesis by (intro conjI)
qed

text \<open>
  An instance of C5 at depth 4: the seeds 3 and \<open>- 3\<close>, the last two passes of the loop
  with \<open>iterations = 64\<close>, and the driver run with \<open>n = 4\<close> with its loop line for depth 4.
\<close>

theorem checksum_closed_form_witness:
  "(1::int) \<le> 4 \<and> (3::int) < 64
   \<and> itemCheck (bottomUpTree 3 4) = Inr 2
   \<and> itemCheck (bottomUpTree (- 3) 4) = Inr (- 4)
   \<and> hd (fst (main 4 4)) = Stretch 7 (- 1)
   \<and> last (fst (main 4 4)) = LongLived 6 (- 1)
   \<and> for_loop 4 64 3 \<lparr>check = - 4, built = []\<rparr> =
       for_loop 4 64 4 \<lparr>check = - 6, built = [bottomUpTree 3 4, bottomUpTree (- 3) 4]\<rparr>
   \<and> for_loop 4 64 62 \<lparr>check = - 122, built = []\<rparr> =
       Inr \<lparr>check = - 126,
            built = [bottomUpTree 62 4, bottomUpTree (- 62) 4,
                     bottomUpTree 63 4, bottomUpTree (- 63) 4]\<rparr>
   \<and> main 4 4 =
       ([Stretch 7 (- 1), Trees 128 4 (- 126), Trees 32 6 (- 30), LongLived 6 (- 1)], None)
   \<and> Trees 128 4 (- 126) \<in> set (fst (main 4 4))
   \<and> is_Trees (Trees 128 4 (- 126))
   \<and> (\<exists>its t. shl 1 (6 - 4 + 4) = Inr its
         \<and> for_loop 4 its 1 \<lparr>check = 0, built = []\<rparr> = Inr t
         \<and> Trees 128 4 (- 126) = Trees (its * 2) 4 (check t)
         \<and> check t = - int (length (built t)))"
proof -
  note a = checksum_closed_form [of 4 3 4 3 64 "\<lparr>check = - 4, built = []\<rparr>"]
  note b = checksum_closed_form [of 4 "- 3" 4 62 64 "\<lparr>check = - 122, built = []\<rparr>"]
  note tl1 = conjunct2 [THEN conjunct2, THEN conjunct2]
  note a1 = a [THEN conjunct1]
  note a2 = a [THEN conjunct2, THEN conjunct1]
  note a3 = a [THEN conjunct2, THEN conjunct2, THEN conjunct1]
  note a4 = a [THEN tl1, THEN conjunct1]
  note b5 = b [THEN tl1, THEN conjunct2, THEN conjunct1]
  note a6 = a [THEN tl1, THEN conjunct2, THEN conjunct2, THEN conjunct1]
  note a7 = a [THEN tl1, THEN conjunct2, THEN conjunct2, THEN conjunct2]
  have m: "main 4 4 =
       ([Stretch 7 (- 1), Trees 128 4 (- 126), Trees 32 6 (- 30), LongLived 6 (- 1)], None)"
    using a6 by (simp add: upt_conv_Cons)
  have mem: "Trees 128 4 (- 126) \<in> set (fst (main 4 4))" by (simp add: m)
  have link: "\<exists>its t. shl 1 (6 - 4 + 4) = Inr its
         \<and> for_loop 4 its 1 \<lparr>check = 0, built = []\<rparr> = Inr t
         \<and> Trees 128 4 (- 126) = Trees (its * 2) 4 (check t)
         \<and> check t = - int (length (built t))"
    using bspec [OF a7 mem] by simp
  have w: "for_loop 4 64 62 \<lparr>check = - 122, built = []\<rparr> =
       Inr \<lparr>check = - 126,
            built = [bottomUpTree 62 4, bottomUpTree (- 62) 4,
                     bottomUpTree 63 4, bottomUpTree (- 63) 4]\<rparr>"
    using b5 by (simp add: upto_rec1)
  have c1: "itemCheck (bottomUpTree 3 4) = Inr 2" using a1 by simp
  have c2: "itemCheck (bottomUpTree (- 3) 4) = Inr (- 4)" using b [THEN conjunct1] by simp
  have c3: "hd (fst (main 4 4)) = Stretch 7 (- 1)" using a2 by simp
  have c4: "last (fst (main 4 4)) = LongLived 6 (- 1)" using a3 by simp
  have c5: "for_loop 4 64 3 \<lparr>check = - 4, built = []\<rparr> =
       for_loop 4 64 4 \<lparr>check = - 6, built = [bottomUpTree 3 4, bottomUpTree (- 3) 4]\<rparr>"
    using a4 by auto
  from c1 c2 c3 c4 c5 w m mem link show ?thesis
    by (intro conjI) simp_all
qed

text \<open>
  Claim C3 says that the checksums of the trees built from \<open>i\<close> and \<open>- i\<close> at an even
  depth add up to 0. At \<open>i = 1\<close> and depth 2 they are 0 and \<open>- 2\<close>.
\<close>

theorem pair_sum_counterexample:
  "itemCheck (bottomUpTree 1 2) = Inr 0
   \<and> itemCheck (bottomUpTree (- 1) 2) = Inr (- 2)
   \<and> even (2::int) \<and> (0::int) + (- 2) \<noteq> 0"
  by (simp add: itemCheck_inner)

text \<open>
  Claim C3, amended. For every integer \<open>i\<close> and every depth, the checksums of the trees
  built from \<open>i\<close> and \<open>- i\<close> add up to 0 when the depth is at most 0 (both trees are
  leaves) and to \<open>- 2\<close> when the depth is at least 1.
\<close>

theorem pair_sum:
  "\<exists>a b. itemCheck (bottomUpTree i depth) = Inr a
      \<and> itemCheck (bottomUpTree (- i) depth) = Inr b
      \<and> a + b = (if depth \<le> 0 then 0 else - 2)"
  by (simp add: itemCheck_leaf itemCheck_inner)

text \<open>
  An instance of the amended C3 at depth 0 and at depth 2.
\<close>

theorem pair_sum_witness:
  "(\<exists>a b. itemCheck (bottomUpTree 5 0) = Inr a \<and> itemCheck (bottomUpTree (- 5) 0) = Inr b
      \<and> a + b = 0)
   \<and> (\<exists>a b. itemCheck (bottomUpTree 5 2) = Inr a \<and> itemCheck (bottomUpTree (- 5) 2) = Inr b
      \<and> a + b = - 2)"
  using pair_sum [of 5 0] pair_sum [of 5 2] by simp

subsection \<open>Driver\<close>

text \<open>
  Claim C8. For every \<open>n\<close>, the driver runs with \<open>minDepth = 4\<close>,
  \<open>maxDepth = max n (minDepth + 2)\<close> and \<open>stretchDepth = maxDepth + 1\<close>; its first
  line reports the checksum of the tree built from seed 0 at \<open>stretchDepth\<close>, its last
  line reports the checksum of the tree built from seed 0 at \<open>maxDepth\<close>, and the lines
  in between are the loop's.
\<close>

theorem main_first_last:
  "(\<exists>c1 c2 mid.
      itemCheck (bottomUpTree 0 (max n (4 + 2) + 1)) = Inr c1
      \<and> itemCheck (bottomUpTree 0 (max n (4 + 2))) = Inr c2
      \<and> main n 4 = (Stretch (max n (4 + 2) + 1) c1 # mid @ [LongLived (max n (4 + 2)) c2], None)
      \<and> (\<forall>l \<in> set mid. is_Trees l))
   \<and> (1 < length argv \<and> int_py (argv ! 1) = Some n \<longrightarrow> program int_py argv = main n 4)"
proof -
  obtain ls where m:
    "main n 4 = (Stretch (max n 6 + 1) (- 1) # ls @ [LongLived (max n 6) (- 1)], None)"
    "\<forall>l \<in> set ls. is_Trees l"
    using main_shape by blast
  have c1: "itemCheck (bottomUpTree 0 (max n 6 + 1)) = Inr (- 1)"
    using itemCheck_inner [of "max n 6 + 1" 0] by simp
  have c2: "itemCheck (bottomUpTree 0 (max n 6)) = Inr (- 1)"
    using itemCheck_inner [of "max n 6" 0] by simp
  have "\<exists>c1 c2 mid.
      itemCheck (bottomUpTree 0 (max n 6 + 1)) = Inr c1
      \<and> itemCheck (bottomUpTree 0 (max n 6)) = Inr c2
      \<and> main n 4 = (Stretch (max n 6 + 1) c1 # mid @ [LongLived (max n 6) c2], None)
      \<and> (\<forall>l \<in> set mid. is_Trees l)"
    using m c1 c2 by blast
  then show ?thesis
    by (simp add: program_def)
qed

text \<open>
  An instance of C8: the run with the argument \<open>9\<close>.
\<close>

theorem main_first_last_witness:
  "1 < length [''binary-tree.py'', ''9'']
   \<and> (\<lambda>s. if s = ''9'' then Some (9::int) else None) ([''binary-tree.py'', ''9''] ! 1) = Some 9
   \<and> (\<exists>c1 c2 mid.
        itemCheck (bottomUpTree 0 10) = Inr c1
        \<and> itemCheck (bottomUpTree 0 9) = Inr c2
        \<and> program (\<lambda>s. if s = ''9'' then Some 9 else None) [''binary-tree.py'', ''9'']
            = (Stretch 10 c1 # mid @ [LongLived 9 c2], None)
        \<and> (\<forall>l \<in> set mid. is_Trees l))"
  using main_first_last [of 9 "[''binary-tree.py'', ''9'']" "\<lambda>s. if s = ''9'' then Some 9 else None"]
  by simp

text \<open>
  Claim C2 says that the run with \<open>n = 4\<close> prints a stretch line for depth 6. The only
  stretch line of that run is for depth 7.
\<close>

theorem main_4_stretch_depth:
  "map depth_of (filter is_Stretch (fst (main 4 4))) = [7]
   \<and> 6 \<notin> set (map depth_of (filter is_Stretch (fst (main 4 4))))"
  by (simp add: main_4)

text \<open>
  Claim C2, amended. The run with \<open>n = 4\<close> prints a stretch line for depth 7, loop
  lines for depths 4 and 6 and a final long-lived line for depth 6, in this order, and
  the printed values are the same in every such run: they depend neither on the other
  command-line words nor on how the argument was spelt.
\<close>

theorem run_4_lines:
  "\<exists>k4 c4 k6 c6. \<forall>int_py argv.
     1 < length argv \<and> int_py (argv ! 1) = Some 4 \<longrightarrow>
       program int_py argv =
         ([Stretch 7 (- 1), Trees k4 4 c4, Trees k6 6 c6, LongLived 6 (- 1)], None)"
proof -
  have "program int_py argv =
          ([Stretch 7 (- 1), Trees 128 4 (- 126), Trees 32 6 (- 30), LongLived 6 (- 1)], None)"
    if "1 < length argv" "int_py (argv ! 1) = Some 4" for int_py argv
    using that by (simp add: program_def main_4)
  then show ?thesis by blast
qed

text \<open>
  An instance of the amended C2: the command line \<^verbatim>\<open>binary-tree.py 4\<close>.
\<close>

theorem run_4_lines_witness:
  "1 < length [''binary-tree.py'', ''4'']
   \<and> (\<lambda>s. if s = ''4'' then Some (4::int) else None) ([''binary-tree.py'', ''4''] ! 1) = Some 4
   \<and> (\<exists>k4 c4 k6 c6.
        program (\<lambda>s. if s = ''4'' then Some 4 else None) [''binary-tree.py'', ''4''] =
          ([Stretch 7 (- 1), Trees k4 4 c4, Trees k6 6 c6, LongLived 6 (- 1)], None))"
proof -
  let ?p = "\<lambda>s. if s = ''4'' then Some (4::int) else None"
  let ?argv = "[''binary-tree.py'', ''4'']"
  have h: "1 < length ?argv \<and> ?p (?argv ! 1) = Some 4" by simp
  from run_4_lines obtain k4 c4 k6 c6 where
    "\<forall>int_py argv. 1 < length argv \<and> int_py (argv ! 1) = Some 4 \<longrightarrow>
       program int_py argv =
         ([Stretch 7 (- 1), Trees k4 4 c4, Trees k6 6 c6, LongLived 6 (- 1)], None)"
    by blast
  then have "1 < length ?argv \<and> ?p (?argv ! 1) = Some 4 \<longrightarrow>
       program ?p ?argv =
         ([Stretch 7 (- 1), Trees k4 4 c4, Trees k6 6 c6, LongLived 6 (- 1)], None)"
    by (elim allE)
  with h have "program ?p ?argv =
         ([Stretch 7 (- 1), Trees k4 4 c4, Trees k6 6 c6, LongLived 6 (- 1)], None)"
    by (rule rev_mp)
  then have "\<exists>k4 c4 k6 c6. program ?p ?argv =
         ([Stretch 7 (- 1), Trees k4 4 c4, Trees k6 6 c6, LongLived 6 (- 1)], None)"
    by (intro exI)
  with h show ?thesis by (intro conjI) simp_all
qed

text \<open>
  Claim C1 says that the loop at each depth builds \<open>2 * iterations\<close> trees, from the
  seeds \<open>i\<close> and \<open>- i\<close> for \<open>i\<close> from 1 to \<open>iterations\<close> inclusive, and reports their
  number with the sum of their checksums. In the run with \<open>n = 4\<close>, at depth 4,
  \<open>iterations\<close> is 64 and the line reports 128 trees, but the loop has built 126 trees,
  from the seeds up to 63, and the reported sum is that of these 126.
\<close>

theorem tree_count_mismatch:
  "shl 1 (6 - 4 + 4) = Inr 64
   \<and> (\<exists>s. for_loop 4 64 1 \<lparr>check = 0, built = []\<rparr> = Inr s
        \<and> length (built s) = 126
        \<and> map item (built s) = concat (map (\<lambda>j. [j, - j]) [1..63])
        \<and> 64 \<notin> set (map item (built s))
        \<and> check s = - 126)
   \<and> fst (main 4 4) ! 1 = Trees 128 4 (- 126)"
proof -
  obtain s where s:
    "for_loop 4 64 1 \<lparr>check = 0, built = []\<rparr> = Inr s"
    "length (built s) = 2 * nat (64 - 1)"
    "map item (built s) = concat (map (\<lambda>j. [j, - j]) [1..64 - 1])"
    "check s = - 2 * max 0 (64 - 1)"
    using for_loop_built [of 4 64] by auto
  have "set (concat (map (\<lambda>j. [j, - j]) [1..63])) \<subseteq> {- 63..63}"
    by auto
  then have "64 \<notin> set (concat (map (\<lambda>j. [j, - j]) [1..63::int]))"
    by auto
  with s have "for_loop 4 64 1 \<lparr>check = 0, built = []\<rparr> = Inr s
        \<and> length (built s) = 126
        \<and> map item (built s) = concat (map (\<lambda>j. [j, - j]) [1..63])
        \<and> 64 \<notin> set (map item (built s))
        \<and> check s = - 126"
    by simp
  then show ?thesis
    by (simp add: shl_def main_4)
qed

subsection \<open>Command line\<close>

text \<open>
  Claim C10. The program ends with a nonzero status exactly when the argument is absent
  or is not read as an integer: the exception is that of the missing list element in
  the first case and that of the failed conversion in the second, and nothing is
  printed. With an argument that is read as the integer \<open>n\<close>, the program is the driver
  at \<open>n\<close>, raises nothing and ends with status 0.
\<close>

theorem program_exit_status:
  "(exit_code (program int_py argv) \<noteq> 0 \<longleftrightarrow> length argv \<le> 1 \<or> int_py (argv ! 1) = None)
   \<and> (length argv \<le> 1 \<longrightarrow> program int_py argv = ([], Some IndexError))
   \<and> (1 < length argv \<and> int_py (argv ! 1) = None \<longrightarrow>
        program int_py argv = ([], Some ValueError))
   \<and> (1 < length argv \<and> int_py (argv ! 1) = Some n \<longrightarrow>
        program int_py argv = main n 4 \<and> snd (program int_py argv) = None
        \<and> exit_code (program int_py argv) = 0)"
proof -
  have ok: "snd (main m 4) = None" for m
    using main_shape [of m] by auto
  show ?thesis
  proof (cases "length argv \<le> 1")
    case True
    then show ?thesis by (simp add: program_def exit_code_def)
  next
    case False
    show ?thesis
    proof (cases "int_py (argv ! 1)")
      case None
      with False show ?thesis by (simp add: program_def exit_code_def)
    next
      case (Some m)
      with False show ?thesis by (simp add: program_def exit_code_def ok)
    qed
  qed
qed

text \<open>
  An instance of C10 for each case: no argument, the argument \<open>x\<close>, the argument
  \<open>4\<close>.
\<close>

theorem program_exit_status_witness:
  "length [''binary-tree.py''] \<le> 1
   \<and> program (\<lambda>s. if s = ''4'' then Some 4 else None) [''binary-tree.py'']
       = ([], Some IndexError)
   \<and> exit_code (program (\<lambda>s. if s = ''4'' then Some 4 else None) [''binary-tree.py'']) \<noteq> 0
   \<and> 1 < length [''binary-tree.py'', ''x'']
   \<and> (\<lambda>s. if s = ''4'' then Some (4::int) else None) ([''binary-tree.py'', ''x''] ! 1) = None
   \<and> program (\<lambda>s. if s = ''4'' then Some 4 else None) [''binary-tree.py'', ''x'']
       = ([], Some ValueError)
   \<and> exit_code (program (\<lambda>s. if s = ''4'' then Some 4 else None) [''binary-tree.py'', ''x'']) \<noteq> 0
   \<and> 1 < length [''binary-tree.py'', ''4'']
   \<and> (\<lambda>s. if s = ''4'' then Some (4::int) else None) ([''binary-tree.py'', ''4''] ! 1) = Some 4
   \<and> snd (program (\<lambda>s. if s = ''4'' then Some 4 else None) [''binary-tree.py'', ''4'']) = None
   \<and> exit_code (program (\<lambda>s. if s = ''4'' then Some 4 else None) [''binary-tree.py'', ''4'']) = 0"
proof -
  let ?p = "\<lambda>s. if s = ''4'' then Some (4::int) else None"
  have absent: "length [''binary-tree.py''] \<le> 1" by simp
  have malformed: "1 < length [''binary-tree.py'', ''x''] \<and> ?p ([''binary-tree.py'', ''x''] ! 1) = None"
    by simp
  have valid: "1 < length [''binary-tree.py'', ''4''] \<and> ?p ([''binary-tree.py'', ''4''] ! 1) = Some 4"
    by simp
  note a = program_exit_status [of ?p "[''binary-tree.py'']" 4]
  note m = program_exit_status [of ?p "[''binary-tree.py'', ''x'']" 4]
  note v = program_exit_status [of ?p "[''binary-tree.py'', ''4'']" 4]
  have "program ?p [''binary-tree.py''] = ([], Some IndexError)"
    using a [THEN conjunct2, THEN conjunct1] by simp
  moreover have "exit_code (program ?p [''binary-tree.py'']) \<noteq> 0"
    using a [THEN conjunct1] by simp
  moreover have "program ?p [''binary-tree.py'', ''x''] = ([], Some ValueError)"
    using m [THEN conjunct2, THEN conjunct2, THEN conjunct1] by simp
  moreover have "exit_code (program ?p [''binary-tree.py'', ''x'']) \<noteq> 0"
    using m [THEN conjunct1] by simp
  moreover have "snd (program ?p [''binary-tree.py'', ''4'']) = None"
    using mp [OF v [THEN conjunct2, THEN conjunct2, THEN conjunct2] valid] by (rule conjunct2 [THEN conjunct1])
  moreover have "exit_code (program ?p [''binary-tree.py'', ''4'']) = 0"
    using mp [OF v [THEN conjunct2, THEN conjunct2, THEN conjunct2] valid] by (rule conjunct2 [THEN conjunct2])
  ultimately show ?thesis
    using absent malformed valid by (intro conjI) simp_all
qed

end
